theory Spec2Isabelle
  imports Main "HOL-Library.Multiset"
begin

section \<open>The lint runner (pkg/lint/runner.go)\<close>

text \<open>
  A shallow embedding of the runner of pkg/lint/runner.go: the panic-safe executor
  \<open>runLinterSafe\<close>, the worker loop \<open>runWorker\<close>, the worker statistics
  \<open>logWorkersStat\<close>, the dispatch order \<open>getSortedLintersConfigs\<close>, the pool
  \<open>runWorkers\<close>, the processing pipeline \<open>processLintResults\<close> and \<open>processIssues\<close>,
  the collector \<open>collectIssues\<close> and the entry point \<open>Run\<close>.

  Conventions of the embedding.
  \<^item> A Go slice that may be nil is a \<open>'a list option\<close>: \<open>None\<close> is the nil slice,
    \<open>Some []\<close> the empty slice that is not nil.
  \<^item> A Go \<open>error\<close> is an \<open>error option\<close>: \<open>None\<close> is the nil error, and an error is
    represented by the text its \<open>Error()\<close> method gives.
  \<^item> A function that may panic returns a sum: \<open>Inl\<close> carries the panic.
  \<^item> A channel is the list of the values that are still to be received from it; every
    channel of the runner is closed by its producer, so a \<open>for range\<close> over a channel is a
    recursion over that list, and what a loop has received is gone from the channel.
  \<^item> The logger and the calls made on the processors are recorded in a trace of events,
    in the order in which one goroutine makes them.
  \<^item> The stopwatch (\<open>timeutils.Stopwatch\<close>) only measures; it is left out.
\<close>

subsection \<open>Data\<close>

type_synonym error = string

type_synonym 'a slice = "'a list option"

definition len :: "'a slice \<Rightarrow> nat" where
  "len s = (case s of None \<Rightarrow> 0 | Some xs \<Rightarrow> length xs)"

definition elems :: "'a slice \<Rightarrow> 'a list" where
  "elems s = (case s of None \<Rightarrow> [] | Some xs \<Rightarrow> xs)"

text \<open>
  Modelled from the spec: \<open>result.Issue\<close> is declared outside pkg/lint/runner.go. The
  runner uses it as a struct value with a field \<open>FromLinter\<close>; the spec gives a finding
  a source location, a message and the originating analyzer, and says that findings are
  value types.
\<close>

record Issue =
  FromLinter :: string
  Text :: string
  Pos_Filename :: string
  Pos_Line :: nat

text \<open>
  The value \<open>recover()\<close> yields for a panic: the nil value (after \<open>panic(nil)\<close>), or a
  value that is not nil, represented by the rendering that the verb \<open>%s\<close> gives of it.
\<close>

datatype panic_value = NilValue | Value string

text \<open>
  What one call of \<open>lc.Linter.Run(ctx, &specificLintCtx)\<close> does: it returns a pair of
  findings and error, or it panics with a value.
\<close>

datatype run_result = Returns "Issue slice" "error option" | Panics panic_value

text \<open>
  Modelled from the spec: \<open>linter.Config\<close>, its field \<open>Linter\<close> (an interface with
  \<open>Name\<close> and \<open>Run\<close>) and its method \<open>GetSpeed\<close> are declared outside
  pkg/lint/runner.go. A task names one analyzer and carries a scalar expected speed.
  The field \<open>Linter\<close> is taken to be set (not the nil interface).
\<close>

record Linter =
  LinterName :: string
  LinterRun :: run_result

record Config =
  Linter :: Linter
  Speed :: int

definition GetSpeed :: "Config \<Rightarrow> int" where
  "GetSpeed lc = Speed lc"

record lintRes =
  linter :: Config
  err :: "error option"
  issues :: "Issue slice"

datatype event =
    Warnf string
  | Errorf string
  | Infof_idle "(nat \<times> int) list"
  | ProcessCalled nat
  | FinishCalled nat

subsection \<open>The panic-safe executor\<close>

text \<open>
  The loop \<open>for _, i := range issues { i.FromLinter = lc.Linter.Name() }\<close>. The state of
  the loop is the backing array of \<open>issues\<close> and the loop variable \<open>i\<close>. In each round Go
  assigns the element to \<open>i\<close> (a struct value, so a copy) and the body assigns to the field
  of \<open>i\<close>; no statement of the loop writes to the array.
\<close>

definition stampBody :: "string \<Rightarrow> nat \<Rightarrow> Issue list \<times> Issue option \<Rightarrow> Issue list \<times> Issue option" where
  "stampBody name k s =
     (case s of (arr, _) \<Rightarrow>
        let i = arr ! k;
            i = i\<lparr>FromLinter := name\<rparr>
        in (arr, Some i))"

definition stampLoop :: "string \<Rightarrow> Issue slice \<Rightarrow> Issue slice \<times> Issue option" where
  "stampLoop name s =
     (case s of
        None \<Rightarrow> (None, None)
      | Some arr \<Rightarrow>
          (case fold (stampBody name) [0..<length arr] (arr, None) of
             (arr', i) \<Rightarrow> (Some arr', i)))"

text \<open>The body of \<open>runLinterSafe\<close>, before the deferred function runs.\<close>

definition runLinterSafe_body :: "Config \<Rightarrow> panic_value + (Issue slice \<times> error option)" where
  "runLinterSafe_body lc =
     (case LinterRun (Linter lc) of
        Panics panicData \<Rightarrow> Inl panicData
      | Returns iss e \<Rightarrow>
          (case e of
             Some x \<Rightarrow> Inr (None, Some x)
           | None \<Rightarrow> Inr (fst (stampLoop (LinterName (Linter lc)) iss), None)))"

text \<open>
  The deferred function. The call of \<open>recover()\<close> stops a panic and yields its value.
  After a panic the named results \<open>ret\<close> and \<open>err\<close> have not been assigned and are nil.
  When the value is not nil (\<open>panicData != nil\<close>), \<open>err\<close> is set and a warning with
  \<open>debug.Stack()\<close> (the parameter \<open>stack\<close>) is logged; when it is nil the body of the
  \<open>if\<close> is skipped and the function returns its named results as they are. With no
  panic \<open>recover()\<close> yields nil and the results of the body are returned.
\<close>

definition runLinterSafe_deferred ::
  "string \<Rightarrow> panic_value + (Issue slice \<times> error option) \<Rightarrow>
   (panic_value + (Issue slice \<times> error option)) \<times> event list" where
  "runLinterSafe_deferred stack r =
     (case r of
        Inl panicData \<Rightarrow>
          (case panicData of
             Value d \<Rightarrow>
               (Inr (None, Some (''panic occurred: '' @ d)),
                [Warnf (''Panic stack trace: '' @ stack)])
           | NilValue \<Rightarrow> (Inr (None, None), []))
      | Inr v \<Rightarrow> (Inr v, []))"

definition runLinterSafe ::
  "string \<Rightarrow> Config \<Rightarrow> (panic_value + (Issue slice \<times> error option)) \<times> event list" where
  "runLinterSafe stack lc = runLinterSafe_deferred stack (runLinterSafe_body lc)"

subsection \<open>One worker\<close>

text \<open>
  The loop of \<open>runWorker\<close> for one worker that receives the tasks \<open>tasksCh\<close>. The
  parameter \<open>cancelled k\<close> says whether the worker observes the cancellation in its round
  \<open>k\<close> (in the \<open>select\<close> or in the check of \<open>ctx.Err()\<close> after the receive): then it
  returns. Otherwise it runs the task and sends the result. The function gives the
  results sent, the worker's log, and the panic that ends the worker, if any.
\<close>

fun runWorker ::
  "(nat \<Rightarrow> bool) \<Rightarrow> string \<Rightarrow> nat \<Rightarrow> Config list \<Rightarrow>
   lintRes list \<times> event list \<times> panic_value option" where
  "runWorker cancelled stack k [] = ([], [], None)"
| "runWorker cancelled stack k (lc # tasksCh) =
     (if cancelled k then ([], [], None)
      else
        (case runLinterSafe stack lc of
           (Inl p, lg) \<Rightarrow> ([], lg, Some p)
         | (Inr (iss, e), lg) \<Rightarrow>
             (case runWorker cancelled stack (Suc k) tasksCh of
                (sent, lg', p) \<Rightarrow>
                  (\<lparr>linter = lc, err = e, issues = iss\<rparr> # sent, lg @ lg', p))))"

subsection \<open>The worker statistics\<close>

text \<open>
  An instant (\<open>time.Time\<close>) is a number of nanoseconds; \<open>After\<close> and \<open>Equal\<close> compare
  instants, and \<open>Sub\<close> gives a \<open>time.Duration\<close>, a 64-bit count of nanoseconds, saturated
  at its bounds as the library does.
\<close>

definition After :: "int \<Rightarrow> int \<Rightarrow> bool" where
  "After t u = (u < t)"

definition Equal :: "int \<Rightarrow> int \<Rightarrow> bool" where
  "Equal t u = (t = u)"

definition maxDuration :: int where
  "maxDuration = 2 ^ 63 - 1"

definition minDuration :: int where
  "minDuration = - (2 ^ 63)"

definition Sub :: "int \<Rightarrow> int \<Rightarrow> int" where
  "Sub t u =
     (let d = t - u
      in if maxDuration < d then maxDuration else if d < minDuration then minDuration else d)"

datatype runtime_panic = IndexOutOfRange | MakesliceLenOutOfRange | WorkerPanic panic_value

text \<open>The first loop of \<open>logWorkersStat\<close>, started at \<open>workersFinishTimes[0]\<close>.\<close>

definition lastFinishLoop :: "int list \<Rightarrow> int \<Rightarrow> int" where
  "lastFinishLoop workersFinishTimes t0 =
     fold (\<lambda>t lastFinishTime. if After t lastFinishTime then t else lastFinishTime)
       workersFinishTimes t0"

text \<open>
  The second loop, from index \<open>i\<close> on. A log string \<open>fmt.Sprintf("#%d: %s", i+1,
  lastFinishTime.Sub(t))\<close> is represented by the pair of its two arguments.
\<close>

fun idleLoop :: "int \<Rightarrow> nat \<Rightarrow> int list \<Rightarrow> (nat \<times> int) list" where
  "idleLoop lastFinishTime i [] = []"
| "idleLoop lastFinishTime i (t # ts) =
     (if Equal t lastFinishTime then idleLoop lastFinishTime (Suc i) ts
      else (i + 1, Sub lastFinishTime t) # idleLoop lastFinishTime (Suc i) ts)"

definition logWorkersStat :: "int list \<Rightarrow> runtime_panic + event list" where
  "logWorkersStat workersFinishTimes =
     (case workersFinishTimes of
        [] \<Rightarrow> Inl IndexOutOfRange
      | t0 # _ \<Rightarrow>
          (let lastFinishTime = lastFinishLoop workersFinishTimes t0
           in Inr [Infof_idle (idleLoop lastFinishTime 0 workersFinishTimes)]))"

subsection \<open>The dispatch order\<close>

text \<open>
  \<open>sort.Slice(ret, less)\<close> belongs to the Go library: it sorts the slice in place with
  the given \<open>less\<close> over indices and does not promise an order among equal elements. It
  is modelled by an insertion sort that only calls \<open>less\<close> and swaps two neighbours, as
  the library's \<open>insertionSort_func\<close> does. The closure \<open>less\<close> reads the slice as it is
  at the moment of the call, so it takes the current contents.
\<close>

definition swap :: "nat \<Rightarrow> nat \<Rightarrow> 'a list \<Rightarrow> 'a list" where
  "swap i j xs = xs[i := xs ! j, j := xs ! i]"

fun insertDown :: "('a list \<Rightarrow> nat \<Rightarrow> nat \<Rightarrow> bool) \<Rightarrow> nat \<Rightarrow> 'a list \<Rightarrow> 'a list" where
  "insertDown lessf 0 xs = xs"
| "insertDown lessf (Suc j) xs =
     (if lessf xs (Suc j) j then insertDown lessf j (swap (Suc j) j xs) else xs)"

definition sort_Slice :: "('a list \<Rightarrow> nat \<Rightarrow> nat \<Rightarrow> bool) \<Rightarrow> 'a list \<Rightarrow> 'a list" where
  "sort_Slice lessf xs = fold (insertDown lessf) [1..<length xs] xs"

text \<open>
  \<open>make([]linter.Config, n)\<close> and \<open>copy(dst, src)\<close>. The zero value of \<open>linter.Config\<close>
  has the nil interface in \<open>Linter\<close>; the constant that stands for it here fills the new
  slice until \<open>copy\<close> overwrites it.
\<close>

definition zeroConfig :: Config where
  "zeroConfig = \<lparr>Linter = \<lparr>LinterName = '''', LinterRun = Returns None None\<rparr>, Speed = 0\<rparr>"

definition make_slice :: "nat \<Rightarrow> Config list" where
  "make_slice n = replicate n zeroConfig"

definition copy_slice :: "'a list \<Rightarrow> 'a list \<Rightarrow> 'a list" where
  "copy_slice dst src =
     (let n = min (length dst) (length src) in take n src @ drop n dst)"

definition speedLess :: "Config list \<Rightarrow> nat \<Rightarrow> nat \<Rightarrow> bool" where
  "speedLess ret i j = (GetSpeed (ret ! i) < GetSpeed (ret ! j))"

definition getSortedLintersConfigs :: "Config list \<Rightarrow> Config list" where
  "getSortedLintersConfigs linters =
     (let ret = make_slice (length linters);
          ret = copy_slice ret linters;
          ret = sort_Slice speedLess ret
      in ret)"

text \<open>
  The same function over a store of backing arrays, where a slice value is the address
  of its array: \<open>make\<close> allocates a new array at the end of the store, \<open>copy\<close> and
  \<open>sort.Slice\<close> write the array at the address they are given.
\<close>

type_synonym store = "Config list list"

definition make_st :: "store \<Rightarrow> nat \<Rightarrow> nat \<times> store" where
  "make_st h n = (length h, h @ [make_slice n])"

definition copy_st :: "store \<Rightarrow> nat \<Rightarrow> nat \<Rightarrow> store" where
  "copy_st h dst src = h[dst := copy_slice (h ! dst) (h ! src)]"

definition sort_Slice_st :: "store \<Rightarrow> nat \<Rightarrow> (Config list \<Rightarrow> nat \<Rightarrow> nat \<Rightarrow> bool) \<Rightarrow> store" where
  "sort_Slice_st h a lessf = h[a := sort_Slice lessf (h ! a)]"

definition getSortedLintersConfigs_st :: "store \<Rightarrow> nat \<Rightarrow> nat \<times> store" where
  "getSortedLintersConfigs_st h linters =
     (case make_st h (length (h ! linters)) of
        (ret, h1) \<Rightarrow>
          (let h2 = copy_st h1 ret linters;
               h3 = sort_Slice_st h2 ret speedLess
           in (ret, h3)))"

subsection \<open>The worker pool\<close>

text \<open>
  What the goroutines of one run leave open is collected in a schedule:
  \<^item> \<open>sch_completed\<close>: the positions, in the task queue, of the tasks that a worker
    started before it observed the cancellation, in the order in which their results
    reach the result channel;
  \<^item> \<open>sch_finishTime i\<close>: the instant \<open>time.Now()\<close> that worker \<open>i\<close> stores when it ends;
  \<^item> \<open>sch_ctxErr\<close>: whether \<open>ctx.Err() != nil\<close> at the check in \<open>Run\<close>;
  \<^item> \<open>sch_stack\<close>: what \<open>debug.Stack()\<close> gives.
\<close>

record schedule =
  sch_completed :: "nat list"
  sch_finishTime :: "nat \<Rightarrow> int"
  sch_ctxErr :: bool
  sch_stack :: string

definition startedTasks :: "schedule \<Rightarrow> int \<Rightarrow> Config list \<Rightarrow> Config list" where
  "startedTasks sch concurrency tasksCh =
     (if concurrency = 0 then []
      else map (\<lambda>i. tasksCh ! i)
             (filter (\<lambda>i. i < length tasksCh) (remdups (sch_completed sch))))"

text \<open>
  \<open>runWorkers\<close> gives the tasks in the order in which they were put on the task channel,
  the results in the order in which they reach the result channel, and the log of the
  workers followed by the statistics line. The results are those of the loop body of
  \<open>runWorker\<close> on the started tasks. With no worker (concurrency 0) no task is started.
  A panic of a goroutine ends the program; it is the result \<open>Inl\<close>.
\<close>

definition runWorkers ::
  "schedule \<Rightarrow> int \<Rightarrow> Config list \<Rightarrow>
   runtime_panic + (Config list \<times> lintRes list \<times> event list)" where
  "runWorkers sch concurrency linters =
     (if concurrency < 0 then Inl MakesliceLenOutOfRange
      else
        (let workersFinishTimes = map (sch_finishTime sch) [0..<nat concurrency];
             lcs = getSortedLintersConfigs linters;
             tasksCh = lcs
         in case runWorker (\<lambda>k. False) (sch_stack sch) 0 (startedTasks sch concurrency tasksCh) of
              (lintResultsCh, lg, Some p) \<Rightarrow> Inl (WorkerPanic p)
            | (lintResultsCh, lg, None) \<Rightarrow>
                (case logWorkersStat workersFinishTimes of
                   Inl p \<Rightarrow> Inl p
                 | Inr info \<Rightarrow> Inr (tasksCh, lintResultsCh, lg @ info))))"

subsection \<open>The processing pipeline\<close>

text \<open>
  Modelled from the spec: \<open>processors.Processor\<close> is declared outside
  pkg/lint/runner.go. A processor has a name, \<open>Process\<close>, which may fail and may change
  the processor's own state, and \<open>Finish\<close>. The state of all processors of the chain is
  one value of type \<open>'st\<close>. \<open>Process\<close> is given the findings as a value: a processor is
  taken not to write into the array it is passed.
\<close>

record 'st Processor =
  ProcName :: string
  Process :: "Issue slice \<Rightarrow> 'st \<Rightarrow> (Issue slice \<times> error option) \<times> 'st"
  Finish :: "'st \<Rightarrow> 'st"

record 'st Runner =
  Processors :: "'st Processor list"

text \<open>
  \<open>processIssues\<close>, from the processor at position \<open>k\<close> of the chain on. The state is the
  processors' state and the trace.
\<close>

fun processIssues ::
  "'st Processor list \<Rightarrow> nat \<Rightarrow> Issue slice \<Rightarrow> 'st \<times> event list \<Rightarrow>
   Issue slice \<times> ('st \<times> event list)" where
  "processIssues [] k iss w = (iss, w)"
| "processIssues (p # ps) k iss (st, tr) =
     (case Process p iss st of
        ((newIssues, e), st') \<Rightarrow>
          (let tr = tr @ [ProcessCalled k];
               (iss, tr) =
                 (case e of
                    Some msg \<Rightarrow>
                      (iss, tr @ [Warnf (''Can't process result by '' @ ProcName p @ '' processor: '' @ msg)])
                  | None \<Rightarrow> (newIssues, tr));
               iss = (if iss = None then Some [] else iss)
           in processIssues ps (Suc k) iss (st', tr)))"

text \<open>The loop \<open>for res := range inCh\<close> of \<open>processLintResults\<close>; it gives what is sent on \<open>outCh\<close>.\<close>

fun processLoop ::
  "'st Processor list \<Rightarrow> lintRes list \<Rightarrow> 'st \<times> event list \<Rightarrow>
   lintRes list \<times> ('st \<times> event list)" where
  "processLoop ps [] w = ([], w)"
| "processLoop ps (res # inCh) (st, tr) =
     (case err res of
        Some e \<Rightarrow>
          processLoop ps inCh
            (st, tr @ [Warnf (''Can't run linter '' @ LinterName (Linter (linter res)) @ '': '' @ e)])
      | None \<Rightarrow>
          (if len (issues res) \<noteq> 0 then
             (case processIssues ps 0 (issues res) (st, tr) of
                (iss, w) \<Rightarrow>
                  (case processLoop ps inCh w of
                     (outCh, w') \<Rightarrow> (res\<lparr>issues := iss\<rparr> # outCh, w')))
           else processLoop ps inCh (st, tr)))"

text \<open>The loop that finalizes the processors, from position \<open>k\<close> on.\<close>

fun finishLoop :: "'st Processor list \<Rightarrow> nat \<Rightarrow> 'st \<times> event list \<Rightarrow> 'st \<times> event list" where
  "finishLoop [] k w = w"
| "finishLoop (p # ps) k (st, tr) = finishLoop ps (Suc k) (Finish p st, tr @ [FinishCalled k])"

definition processLintResults ::
  "'st Runner \<Rightarrow> lintRes list \<Rightarrow> 'st \<times> event list \<Rightarrow> lintRes list \<times> ('st \<times> event list)" where
  "processLintResults r inCh w =
     (case processLoop (Processors r) inCh w of
        (outCh, w') \<Rightarrow> (outCh, finishLoop (Processors r) 0 w'))"

text \<open>The calls of \<open>Process\<close> and of \<open>Finish\<close> among the events of a trace.\<close>

fun isProcessCalled :: "event \<Rightarrow> bool" where
  "isProcessCalled (ProcessCalled k) = True"
| "isProcessCalled e = False"

fun isFinishCalled :: "event \<Rightarrow> bool" where
  "isFinishCalled (FinishCalled k) = True"
| "isFinishCalled e = False"

subsection \<open>The collector and the entry point\<close>

fun collectIssues :: "lintRes list \<Rightarrow> Issue list" where
  "collectIssues [] = []"
| "collectIssues (res # resCh) =
     (if len (issues res) = 0 then collectIssues resCh
      else elems (issues res) @ collectIssues resCh)"

text \<open>The decimal digits that \<open>%d\<close> prints for a count.\<close>

function show_nat :: "nat \<Rightarrow> string" where
  "show_nat n =
     (if n < 10 then [''0123456789'' ! n]
      else show_nat (n div 10) @ [''0123456789'' ! (n mod 10)])"
  by pat_completeness auto
termination
  by (relation "measure id") auto

declare show_nat.simps [simp del]

text \<open>
  The loop \<open>for range processedLintResultsCh { finishedLintersN++ }\<close>: it receives every
  record until the channel is closed, and gives the count and the channel it leaves.
\<close>

fun drain :: "lintRes list \<Rightarrow> nat \<Rightarrow> nat \<times> lintRes list" where
  "drain [] finishedLintersN = (finishedLintersN, [])"
| "drain (res # ch) finishedLintersN = drain ch (Suc finishedLintersN)"

text \<open>
  The result of \<open>Run\<close>: the findings received from the returned channel, the trace of
  the processing goroutine followed by what \<open>Run\<close> itself logs, the log of the workers,
  and the processors' state at the end.
\<close>

record 'st outcome =
  retIssues :: "Issue list"
  runTrace :: "event list"
  workersLog :: "event list"
  procState :: 'st

definition Run ::
  "'st Runner \<Rightarrow> schedule \<Rightarrow> int \<Rightarrow> Config list \<Rightarrow> 'st \<Rightarrow> runtime_panic + 'st outcome" where
  "Run r sch concurrency linters st =
     (case runWorkers sch concurrency linters of
        Inl p \<Rightarrow> Inl p
      | Inr (tasksCh, lintResultsCh, wlog) \<Rightarrow>
          (case processLintResults r lintResultsCh (st, []) of
             (processedLintResultsCh, (st', tr)) \<Rightarrow>
               (if sch_ctxErr sch then
                  (case drain processedLintResultsCh 0 of
                     (finishedLintersN, ch) \<Rightarrow>
                       Inr \<lparr>retIssues = collectIssues ch,
                            runTrace = tr @ [Errorf (show_nat finishedLintersN @ ''/'' @ show_nat (length linters)
                              @ '' linters finished: deadline exceeded: try increase it by passing --deadline option'')],
                            workersLog = wlog,
                            procState = st'\<rparr>)
                else
                  Inr \<lparr>retIssues = collectIssues processedLintResultsCh,
                       runTrace = tr,
                       workersLog = wlog,
                       procState = st'\<rparr>)))"

section \<open>Properties\<close>

lemma stampBody_fst: "fst (stampBody name k s) = fst s"
  by (simp add: stampBody_def split: prod.splits)

lemma fold_stampBody_fst: "fst (fold (stampBody name) ks s) = fst s"
  by (induction ks arbitrary: s) (simp_all add: stampBody_fst)

lemma stampLoop_fst: "fst (stampLoop name s) = s"
proof (cases s)
  case None
  then show ?thesis by (simp add: stampLoop_def)
next
  case (Some arr)
  have "fst (fold (stampBody name) [0..<length arr] (arr, None)) = arr"
    by (simp add: fold_stampBody_fst)
  with Some show ?thesis
    by (auto simp add: stampLoop_def split: prod.splits)
qed

text \<open>
  On success the executor returns the slice of the analyzer with the elements the
  analyzer gave it: the loop leaves the array as it is.
\<close>

lemma runLinterSafe_success:
  "LinterRun (Linter lc) = Returns iss None \<Longrightarrow> runLinterSafe stack lc = (Inr (iss, None), [])"
  by (simp add: runLinterSafe_def runLinterSafe_deferred_def runLinterSafe_body_def stampLoop_fst)

text \<open>
  Claim C1 says that every finding a successful analyzer run hands back carries the
  analyzer's name in \<open>FromLinter\<close>. The loop of the executor assigns the name to its loop
  variable only, so this fails: an analyzer named fast that reports one finding with an
  empty \<open>FromLinter\<close> gets that finding back with \<open>FromLinter\<close> still empty.
\<close>

theorem runLinterSafe_returns_unstamped:
  "runLinterSafe stack
     \<lparr>Linter = \<lparr>LinterName = ''fast'',
                 LinterRun = Returns (Some [\<lparr>FromLinter = '''', Text = ''x'', Pos_Filename = ''a.go'', Pos_Line = 1\<rparr>]) None\<rparr>,
      Speed = 1\<rparr>
   = (Inr (Some [\<lparr>FromLinter = '''', Text = ''x'', Pos_Filename = ''a.go'', Pos_Line = 1\<rparr>], None), [])"
  by (simp add: runLinterSafe_def runLinterSafe_deferred_def runLinterSafe_body_def stampLoop_fst)

subsection \<open>The dispatch order is sorted\<close>

lemma insertDown_append:
  "\<exists>ws. insertDown (\<lambda>xs i j. f (xs ! i) < (f (xs ! j) :: int)) (length ys) (ys @ x # rest) = ws @ rest
        \<and> length ws = Suc (length ys)
        \<and> mset ws = mset (x # ys)
        \<and> (sorted_wrt (\<lambda>a b. f a \<le> f b) ys \<longrightarrow> sorted_wrt (\<lambda>a b. f a \<le> f b) ws)"
proof (induction ys arbitrary: rest rule: rev_induct)
  case Nil
  show ?case by simp
next
  case (snoc y ys)
  let ?L = "\<lambda>xs i j. f (xs ! i) < (f (xs ! j) :: int)"
  let ?xs = "(ys @ [y]) @ x # rest"
  have nth1: "?xs ! Suc (length ys) = x" by (simp add: nth_append)
  have nth0: "?xs ! length ys = y" by (simp add: nth_append)
  show ?case
  proof (cases "f x < f y")
    case True
    have sw: "swap (Suc (length ys)) (length ys) ?xs = ys @ x # (y # rest)"
      by (simp add: swap_def nth_append list_update_append)
    from snoc.IH[of "y # rest"] obtain ws where
      ws: "insertDown ?L (length ys) (ys @ x # y # rest) = ws @ y # rest"
          "length ws = Suc (length ys)" "mset ws = mset (x # ys)"
          "sorted_wrt (\<lambda>a b. f a \<le> f b) ys \<longrightarrow> sorted_wrt (\<lambda>a b. f a \<le> f b) ws"
      by blast
    have step: "insertDown ?L (length (ys @ [y])) ?xs = (ws @ [y]) @ rest"
      using True nth0 nth1 sw ws(1) by simp
    have set_ws: "set ws = insert x (set ys)"
      using ws(3) by (metis list.simps(15) set_mset_mset)
    have srt: "sorted_wrt (\<lambda>a b. f a \<le> f b) (ys @ [y]) \<longrightarrow> sorted_wrt (\<lambda>a b. f a \<le> f b) (ws @ [y])"
      using ws(4) True set_ws by (auto simp: sorted_wrt_append)
    show ?thesis
      using step ws(2) ws(3) srt by (intro exI[of _ "ws @ [y]"]) simp
  next
    case False
    have step: "insertDown ?L (length (ys @ [y])) ?xs = (ys @ [y, x]) @ rest"
      using False nth0 nth1 by simp
    have srt: "sorted_wrt (\<lambda>a b. f a \<le> f b) (ys @ [y]) \<longrightarrow> sorted_wrt (\<lambda>a b. f a \<le> f b) (ys @ [y, x])"
      using False by (auto simp: sorted_wrt_append)
    show ?thesis
      using step srt by (intro exI[of _ "ys @ [y, x]"]) simp
  qed
qed

lemma fold_insertDown_prefix:
  "k < length xs \<Longrightarrow>
   \<exists>ws. fold (insertDown (\<lambda>xs i j. f (xs ! i) < (f (xs ! j) :: int))) [1..<Suc k] xs = ws @ drop (Suc k) xs
        \<and> length ws = Suc k
        \<and> mset ws = mset (take (Suc k) xs)
        \<and> sorted_wrt (\<lambda>a b. f a \<le> f b) ws"
proof (induction k)
  case 0
  then have "xs = [xs ! 0] @ drop (Suc 0) xs"
    by (cases xs) simp_all
  moreover from 0 have "take (Suc 0) xs = [xs ! 0]" by (cases xs) simp_all
  ultimately show ?case
    by (intro exI[of _ "[xs ! 0]"]) simp
next
  case (Suc k)
  let ?L = "\<lambda>xs i j. f (xs ! i) < (f (xs ! j) :: int)"
  from Suc obtain ws where
    ws: "fold (insertDown ?L) [1..<Suc k] xs = ws @ drop (Suc k) xs"
        "length ws = Suc k" "mset ws = mset (take (Suc k) xs)"
        "sorted_wrt (\<lambda>a b. f a \<le> f b) ws"
    by auto
  have dr: "drop (Suc k) xs = xs ! Suc k # drop (Suc (Suc k)) xs"
    using Suc.prems by (simp add: Cons_nth_drop_Suc)
  from insertDown_append[of f ws "xs ! Suc k" "drop (Suc (Suc k)) xs"] obtain vs where
    vs: "insertDown ?L (length ws) (ws @ xs ! Suc k # drop (Suc (Suc k)) xs) = vs @ drop (Suc (Suc k)) xs"
        "length vs = Suc (length ws)" "mset vs = mset (xs ! Suc k # ws)"
        "sorted_wrt (\<lambda>a b. f a \<le> f b) ws \<longrightarrow> sorted_wrt (\<lambda>a b. f a \<le> f b) vs"
    by blast
  have "fold (insertDown ?L) [1..<Suc (Suc k)] xs = insertDown ?L (Suc k) (ws @ drop (Suc k) xs)"
    using ws(1) by simp
  also have "\<dots> = vs @ drop (Suc (Suc k)) xs"
    using vs(1) ws(2) dr by simp
  finally have e: "fold (insertDown ?L) [1..<Suc (Suc k)] xs = vs @ drop (Suc (Suc k)) xs" .
  have m: "mset vs = mset (take (Suc (Suc k)) xs)"
    using vs(3) ws(3) Suc.prems by (simp add: take_Suc_conv_app_nth[of "Suc k"])
  show ?case
    using e m vs(2) vs(4) ws(2) ws(4) by (intro exI[of _ vs]) simp
qed

lemma sort_Slice_sorted_mset:
  "sorted_wrt (\<lambda>a b. f a \<le> f b) (sort_Slice (\<lambda>xs i j. f (xs ! i) < (f (xs ! j) :: int)) xs)
   \<and> mset (sort_Slice (\<lambda>xs i j. f (xs ! i) < f (xs ! j)) xs) = mset xs"
proof (cases xs)
  case Nil
  then show ?thesis by (simp add: sort_Slice_def)
next
  case (Cons a as)
  then have "length xs - 1 < length xs" by simp
  from fold_insertDown_prefix[OF this, of f] obtain ws where
    "fold (insertDown (\<lambda>xs i j. f (xs ! i) < f (xs ! j))) [1..<Suc (length xs - 1)] xs = ws @ drop (Suc (length xs - 1)) xs"
    "mset ws = mset (take (Suc (length xs - 1)) xs)"
    "sorted_wrt (\<lambda>a b. f a \<le> f b) ws"
    by blast
  with Cons show ?thesis by (simp add: sort_Slice_def)
qed

lemma speedLess_eq: "speedLess = (\<lambda>xs i j. GetSpeed (xs ! i) < GetSpeed (xs ! j))"
  by (intro ext) (simp add: speedLess_def)

lemma copy_make: "copy_slice (make_slice (length xs)) xs = xs"
  by (simp add: copy_slice_def make_slice_def)

lemma getSorted_sorted_mset:
  "sorted_wrt (\<lambda>a b. GetSpeed a \<le> GetSpeed b) (getSortedLintersConfigs linters)
   \<and> mset (getSortedLintersConfigs linters) = mset linters"
  using sort_Slice_sorted_mset[of GetSpeed linters]
  by (simp add: getSortedLintersConfigs_def copy_make speedLess_eq)

subsection \<open>The executor recovers a panic\<close>

lemma runLinterSafe_Inr: "\<exists>v. fst (runLinterSafe stack lc) = Inr v"
  by (simp add: runLinterSafe_def runLinterSafe_deferred_def split: sum.splits panic_value.splits)

lemma runWorker_no_panic: "snd (snd (runWorker cancelled stack k tasksCh)) = None"
proof (induction tasksCh arbitrary: k)
  case Nil
  show ?case by simp
next
  case (Cons lc tasksCh)
  obtain v lg where r: "runLinterSafe stack lc = (Inr v, lg)"
    using runLinterSafe_Inr[of stack lc] by (cases "runLinterSafe stack lc") auto
  obtain iss e where v: "v = (iss, e)" by (cases v)
  obtain sent lg' p where w: "runWorker cancelled stack (Suc k) tasksCh = (sent, lg', p)"
    by (cases "runWorker cancelled stack (Suc k) tasksCh")
  from Cons.IH[of "Suc k"] w have "p = None" by simp
  with r v w show ?case by simp
qed





subsection \<open>The statistics need a worker\<close>

lemma logWorkersStat_Inl: "(logWorkersStat ts = Inl p) = (ts = [] \<and> p = IndexOutOfRange)"
  by (cases ts) (auto simp: logWorkersStat_def Let_def)

lemma runWorkers_Inr_iff: "(\<exists>v. runWorkers sch c linters = Inr v) = (1 \<le> c)"
proof (cases "c < 0")
  case True
  then show ?thesis by (simp add: runWorkers_def)
next
  case False
  let ?w = "runWorker (\<lambda>k. False) (sch_stack sch) 0 (startedTasks sch c (getSortedLintersConfigs linters))"
  obtain res lg p where w: "?w = (res, lg, p)" by (cases ?w)
  have p: "p = None" using runWorker_no_panic[of "\<lambda>k. False" "sch_stack sch" 0 "startedTasks sch c (getSortedLintersConfigs linters)"] w by simp
  show ?thesis
  proof (cases "c = 0")
    case True
    then show ?thesis using w p by (simp add: runWorkers_def logWorkersStat_def)
  next
    case c0: False
    with False have "1 \<le> c" by simp
    then have ne: "map (sch_finishTime sch) [0..<nat c] \<noteq> []" by simp
    then obtain info where "logWorkersStat (map (sch_finishTime sch) [0..<nat c]) = Inr info"
      using logWorkersStat_Inl[of "map (sch_finishTime sch) [0..<nat c]"]
      by (cases "logWorkersStat (map (sch_finishTime sch) [0..<nat c])") auto
    then show ?thesis using False \<open>1 \<le> c\<close> w p by (simp add: runWorkers_def)
  qed
qed

lemma runWorkers_zero: "runWorkers sch 0 linters = Inl IndexOutOfRange"
proof -
  let ?w = "runWorker (\<lambda>k. False) (sch_stack sch) 0 (startedTasks sch 0 (getSortedLintersConfigs linters))"
  obtain res lg p where w: "?w = (res, lg, p)" by (cases ?w)
  have p: "p = None" using runWorker_no_panic[of "\<lambda>k. False" "sch_stack sch" 0 "startedTasks sch 0 (getSortedLintersConfigs linters)"] w by simp
  show ?thesis using w p by (simp add: runWorkers_def logWorkersStat_def)
qed

lemma Run_Inr_iff: "(\<exists>out. Run r sch c linters st = Inr out) = (\<exists>v. runWorkers sch c linters = Inr v)"
proof (cases "runWorkers sch c linters")
  case (Inl p)
  then show ?thesis by (simp add: Run_def)
next
  case (Inr v)
  obtain tasksCh raw wlog where v: "v = (tasksCh, raw, wlog)" by (cases v)
  obtain processed st' tr where p: "processLintResults r raw (st, []) = (processed, (st', tr))"
    by (cases "processLintResults r raw (st, [])") auto
  obtain n ch where d: "drain processed 0 = (n, ch)" by (cases "drain processed 0")
  have "\<exists>out. Run r sch c linters st = Inr out"
    using Inr v p d by (cases "sch_ctxErr sch") (simp_all add: Run_def)
  with Inr show ?thesis by blast
qed

text \<open>
  Claim C9: \<open>logWorkersStat\<close> reads \<open>workersFinishTimes[0]\<close> before anything else. The
  list has one slot per worker, so the read is in bounds exactly when the configured
  concurrency is at least 1, and so are \<open>runWorkers\<close> and \<open>Run\<close> free of a panic
  exactly then; with concurrency 0 the read is out of bounds.
\<close>

theorem logWorkersStat_needs_a_worker:
  "(logWorkersStat workersFinishTimes = Inl IndexOutOfRange) = (workersFinishTimes = [])
   \<and> (\<exists>info. logWorkersStat (map (sch_finishTime sch) [0..<nat concurrency]) = Inr info) = (1 \<le> concurrency)
   \<and> (\<exists>v. runWorkers sch concurrency linters = Inr v) = (1 \<le> concurrency)
   \<and> (\<exists>out. Run r sch concurrency linters st = Inr out) = (1 \<le> concurrency)
   \<and> runWorkers sch 0 linters = Inl IndexOutOfRange
   \<and> Run r sch 0 linters st = Inl IndexOutOfRange"
proof -
  have a: "(logWorkersStat workersFinishTimes = Inl IndexOutOfRange) = (workersFinishTimes = [])"
    by (simp add: logWorkersStat_Inl)
  have b: "(\<exists>info. logWorkersStat (map (sch_finishTime sch) [0..<nat concurrency]) = Inr info) = (1 \<le> concurrency)"
  proof (cases "1 \<le> concurrency")
    case True
    then have "map (sch_finishTime sch) [0..<nat concurrency] \<noteq> []" by simp
    then have "\<exists>info. logWorkersStat (map (sch_finishTime sch) [0..<nat concurrency]) = Inr info"
      using logWorkersStat_Inl[of "map (sch_finishTime sch) [0..<nat concurrency]"]
      by (cases "logWorkersStat (map (sch_finishTime sch) [0..<nat concurrency])") auto
    with True show ?thesis by simp
  next
    case False
    then have "logWorkersStat (map (sch_finishTime sch) [0..<nat concurrency]) = Inl IndexOutOfRange"
      by (simp add: logWorkersStat_def)
    with False show ?thesis by simp
  qed
  have c: "(\<exists>v. runWorkers sch concurrency linters = Inr v) = (1 \<le> concurrency)"
    by (rule runWorkers_Inr_iff)
  have d: "(\<exists>out. Run r sch concurrency linters st = Inr out) = (1 \<le> concurrency)"
    by (simp only: Run_Inr_iff runWorkers_Inr_iff)
  have e: "runWorkers sch 0 linters = Inl IndexOutOfRange" by (rule runWorkers_zero)
  have f: "Run r sch 0 linters st = Inl IndexOutOfRange" by (simp add: Run_def runWorkers_zero)
  show ?thesis
    by (intro conjI) (rule a, rule b, rule c, rule d, rule e, rule f)
qed

text \<open>
  Claim C7: the tasks are put on the task channel in ascending order of \<open>GetSpeed\<close>. The
  sequence \<open>getSortedLintersConfigs\<close> gives is sorted by that key and is a permutation
  of the input, and it is the sequence \<open>runWorkers\<close> sends on the task channel. (Which
  end of the scale of \<open>GetSpeed\<close> stands for a fast analyzer is decided where
  \<open>linter.Config\<close> is declared, outside this file.)
\<close>

theorem tasks_enqueued_sorted_by_speed:
  "sorted_wrt (\<lambda>a b. GetSpeed a \<le> GetSpeed b) (getSortedLintersConfigs linters)
   \<and> mset (getSortedLintersConfigs linters) = mset linters
   \<and> (\<forall>tasksCh lintResultsCh lg.
         runWorkers sch concurrency linters = Inr (tasksCh, lintResultsCh, lg) \<longrightarrow>
           tasksCh = getSortedLintersConfigs linters
           \<and> sorted_wrt (\<lambda>a b. GetSpeed a \<le> GetSpeed b) tasksCh
           \<and> mset tasksCh = mset linters)"
proof -
  have s: "sorted_wrt (\<lambda>a b. GetSpeed a \<le> GetSpeed b) (getSortedLintersConfigs linters)"
    and m: "mset (getSortedLintersConfigs linters) = mset linters"
    using getSorted_sorted_mset[of linters] by simp_all
  have q: "tasksCh = getSortedLintersConfigs linters"
    if "runWorkers sch concurrency linters = Inr (tasksCh, lintResultsCh, lg)"
    for tasksCh lintResultsCh lg
    using that
    by (auto simp: runWorkers_def Let_def split: if_splits prod.splits option.splits sum.splits)
  show ?thesis
    using s m q by blast
qed

theorem tasks_enqueued_sorted_by_speed_witness:
  "runWorkers \<lparr>sch_completed = [], sch_finishTime = (\<lambda>i. 0), sch_ctxErr = False, sch_stack = ''''\<rparr> 1
     [\<lparr>Linter = \<lparr>LinterName = ''fast'', LinterRun = Returns None None\<rparr>, Speed = 1\<rparr>,
      \<lparr>Linter = \<lparr>LinterName = ''slow'', LinterRun = Returns None None\<rparr>, Speed = 3\<rparr>,
      \<lparr>Linter = \<lparr>LinterName = ''medium'', LinterRun = Returns None None\<rparr>, Speed = 2\<rparr>]
   = Inr ([\<lparr>Linter = \<lparr>LinterName = ''fast'', LinterRun = Returns None None\<rparr>, Speed = 1\<rparr>,
           \<lparr>Linter = \<lparr>LinterName = ''medium'', LinterRun = Returns None None\<rparr>, Speed = 2\<rparr>,
           \<lparr>Linter = \<lparr>LinterName = ''slow'', LinterRun = Returns None None\<rparr>, Speed = 3\<rparr>],
          [], [Infof_idle []])
   \<and> sorted_wrt (\<lambda>a b. GetSpeed a \<le> GetSpeed b)
         [\<lparr>Linter = \<lparr>LinterName = ''fast'', LinterRun = Returns None None\<rparr>, Speed = 1\<rparr>,
          \<lparr>Linter = \<lparr>LinterName = ''medium'', LinterRun = Returns None None\<rparr>, Speed = 2\<rparr>,
          \<lparr>Linter = \<lparr>LinterName = ''slow'', LinterRun = Returns None None\<rparr>, Speed = 3\<rparr>]"
proof -
  let ?sch = "\<lparr>sch_completed = [], sch_finishTime = (\<lambda>i. 0), sch_ctxErr = False, sch_stack = ''''\<rparr>"
  let ?ls = "[\<lparr>Linter = \<lparr>LinterName = ''fast'', LinterRun = Returns None None\<rparr>, Speed = 1\<rparr>,
      \<lparr>Linter = \<lparr>LinterName = ''slow'', LinterRun = Returns None None\<rparr>, Speed = 3\<rparr>,
      \<lparr>Linter = \<lparr>LinterName = ''medium'', LinterRun = Returns None None\<rparr>, Speed = 2\<rparr>]"
  have ev: "runWorkers ?sch 1 ?ls
   = Inr ([\<lparr>Linter = \<lparr>LinterName = ''fast'', LinterRun = Returns None None\<rparr>, Speed = 1\<rparr>,
           \<lparr>Linter = \<lparr>LinterName = ''medium'', LinterRun = Returns None None\<rparr>, Speed = 2\<rparr>,
           \<lparr>Linter = \<lparr>LinterName = ''slow'', LinterRun = Returns None None\<rparr>, Speed = 3\<rparr>],
          [], [Infof_idle []])"
    by (simp add: runWorkers_def getSortedLintersConfigs_def make_slice_def copy_slice_def
        sort_Slice_def speedLess_def GetSpeed_def swap_def startedTasks_def logWorkersStat_def
        lastFinishLoop_def After_def Equal_def upt_rec[of 1] upt_rec[of 2] upt_rec[of 3] numeral_2_eq_2 numeral_3_eq_3)
  from tasks_enqueued_sorted_by_speed[of ?ls ?sch 1] ev show ?thesis
    by simp
qed

subsection \<open>The sort leaves the caller's slice alone\<close>

lemma make_st_simps: "make_st h n = (length h, h @ [make_slice n])"
  by (simp add: make_st_def)

text \<open>
  Claim C10: the sort works on a copy. Over the store, for a slice \<open>linters\<close> whose array
  is allocated, \<open>getSortedLintersConfigs\<close> returns a new address that holds the sorted
  sequence, and the array of \<open>linters\<close>, like every array allocated before the call, is
  as it was: the same elements in the same order.
\<close>

theorem getSortedLintersConfigs_leaves_input:
  assumes "linters < length h"
  shows "fst (getSortedLintersConfigs_st h linters) = length h
         \<and> length (snd (getSortedLintersConfigs_st h linters)) = Suc (length h)
         \<and> snd (getSortedLintersConfigs_st h linters) ! fst (getSortedLintersConfigs_st h linters)
             = getSortedLintersConfigs (h ! linters)
         \<and> snd (getSortedLintersConfigs_st h linters) ! linters = h ! linters
         \<and> take (length h) (snd (getSortedLintersConfigs_st h linters)) = h"
  using assms
  by (simp add: getSortedLintersConfigs_st_def getSortedLintersConfigs_def make_st_def
      copy_st_def sort_Slice_st_def Let_def nth_append)

theorem getSortedLintersConfigs_leaves_input_witness:
  "(0::nat) < length [[\<lparr>Linter = \<lparr>LinterName = ''slow'', LinterRun = Returns None None\<rparr>, Speed = 3\<rparr>,
                       \<lparr>Linter = \<lparr>LinterName = ''fast'', LinterRun = Returns None None\<rparr>, Speed = 1\<rparr>]]
   \<and> snd (getSortedLintersConfigs_st
            [[\<lparr>Linter = \<lparr>LinterName = ''slow'', LinterRun = Returns None None\<rparr>, Speed = 3\<rparr>,
              \<lparr>Linter = \<lparr>LinterName = ''fast'', LinterRun = Returns None None\<rparr>, Speed = 1\<rparr>]] 0) ! 0
       = [\<lparr>Linter = \<lparr>LinterName = ''slow'', LinterRun = Returns None None\<rparr>, Speed = 3\<rparr>,
          \<lparr>Linter = \<lparr>LinterName = ''fast'', LinterRun = Returns None None\<rparr>, Speed = 1\<rparr>]"
  using getSortedLintersConfigs_leaves_input
    [of 0 "[[\<lparr>Linter = \<lparr>LinterName = ''slow'', LinterRun = Returns None None\<rparr>, Speed = 3\<rparr>,
              \<lparr>Linter = \<lparr>LinterName = ''fast'', LinterRun = Returns None None\<rparr>, Speed = 1\<rparr>]]"]
  by simp

subsection \<open>The idle-time report\<close>

lemma lastFinishLoop_Max: "lastFinishLoop ts t0 = Max (insert t0 (set ts))"
proof -
  have f: "(\<lambda>t lastFinishTime. if After t lastFinishTime then t else lastFinishTime) = (max :: int \<Rightarrow> int \<Rightarrow> int)"
    by (intro ext) (simp add: After_def max_def)
  have "fold max ts t0 = Max (set (t0 # ts))"
    by (rule Max.set_eq_fold[symmetric])
  then show ?thesis
    by (simp add: lastFinishLoop_def f)
qed

lemma idleLoop_eq:
  "idleLoop lastFinishTime i ts =
     map (\<lambda>j. (i + j + 1, Sub lastFinishTime (ts ! j)))
       (filter (\<lambda>j. ts ! j \<noteq> lastFinishTime) [0..<length ts])"
proof (induction ts arbitrary: i)
  case Nil
  show ?case by simp
next
  case (Cons t ts)
  have u: "[0..<length (t # ts)] = 0 # map Suc [0..<length ts]"
    by (simp add: upt_conv_Cons map_Suc_upt del: upt_Suc)
  show ?case
    unfolding u
    by (simp add: Cons.IH[of "Suc i"] Equal_def filter_map comp_def)
qed

lemma Sub_positive: "t < lastFinishTime \<Longrightarrow> 0 < Sub lastFinishTime t"
  by (simp add: Sub_def Let_def maxDuration_def minDuration_def)

text \<open>
  Claim C8, as amended. The idle time of a worker is the last finish time, the maximum
  of the finish times, minus the worker's own finish time. Every worker whose finish time
  equals the last finish time is left out of the report: the report lists exactly the
  workers that finished strictly earlier, in the order of the workers, numbered from 1,
  each with an idle time above zero.
\<close>

theorem logWorkersStat_reports_earlier_workers:
  assumes "workersFinishTimes \<noteq> []"
  shows "logWorkersStat workersFinishTimes =
           Inr [Infof_idle
                  (map (\<lambda>i. (i + 1, Sub (Max (set workersFinishTimes)) (workersFinishTimes ! i)))
                     (filter (\<lambda>i. workersFinishTimes ! i \<noteq> Max (set workersFinishTimes))
                        [0..<length workersFinishTimes]))]
         \<and> (\<forall>i < length workersFinishTimes.
               workersFinishTimes ! i \<noteq> Max (set workersFinishTimes) \<longrightarrow>
                 0 < Sub (Max (set workersFinishTimes)) (workersFinishTimes ! i))"
proof -
  obtain t0 ts where c: "workersFinishTimes = t0 # ts"
    using assms by (cases workersFinishTimes) auto
  have l: "lastFinishLoop workersFinishTimes t0 = Max (set workersFinishTimes)"
    using c by (simp add: lastFinishLoop_Max)
  have a: "logWorkersStat workersFinishTimes =
           Inr [Infof_idle (idleLoop (Max (set workersFinishTimes)) 0 workersFinishTimes)]"
    using c l by (simp add: logWorkersStat_def Let_def del: idleLoop.simps)
  have b: "0 < Sub (Max (set workersFinishTimes)) (workersFinishTimes ! i)"
    if "i < length workersFinishTimes" "workersFinishTimes ! i \<noteq> Max (set workersFinishTimes)" for i
  proof -
    have "workersFinishTimes ! i \<le> Max (set workersFinishTimes)"
      using that(1) by simp
    with that(2) have "workersFinishTimes ! i < Max (set workersFinishTimes)" by simp
    then show ?thesis by (rule Sub_positive)
  qed
  show ?thesis
    using a b by (simp add: idleLoop_eq)
qed

theorem logWorkersStat_reports_earlier_workers_witness:
  "[5, 5, 3 :: int] \<noteq> [] \<and> logWorkersStat [5, 5, 3] = Inr [Infof_idle [(3, 2)]]"
proof -
  have ne: "[5, 5, 3 :: int] \<noteq> []" by simp
  have m: "Max (set [5, 5, 3 :: int]) = 5" by simp
  have u: "[0..<length [5, 5, 3 :: int]] = [0, 1, 2]" by (simp add: numeral_2_eq_2)
  have s: "Sub 5 3 = 2" by (simp add: Sub_def Let_def maxDuration_def minDuration_def)
  note t = conjunct1[OF logWorkersStat_reports_earlier_workers[OF ne]]
  have "logWorkersStat [5, 5, 3] = Inr [Infof_idle [(3, 2)]]"
    using t unfolding m u by (simp add: s)
  with ne show ?thesis by simp
qed

text \<open>
  Claim C8 as stated says that of the workers that tie for the last finish time exactly
  one is left out and the others are reported with idle time zero. With the finish times
  5, 5 and 3 the workers 1 and 2 tie; the report holds worker 3 alone, so it does not have
  two entries, and neither worker 1 nor worker 2 is in it with idle time zero.
\<close>

theorem logWorkersStat_tie_counterexample:
  "idleLoop (lastFinishLoop [5, 5, 3] 5) 0 [5, 5, 3] = [(3, 2)]
   \<and> logWorkersStat [5, 5, 3] = Inr [Infof_idle [(3, 2)]]
   \<and> length (idleLoop (lastFinishLoop [5, 5, 3] 5) 0 [5, 5, 3]) \<noteq> length [5, 5, 3 :: int] - 1
   \<and> (1, 0) \<notin> set (idleLoop (lastFinishLoop [5, 5, 3] 5) 0 [5, 5, 3])
   \<and> (2, 0) \<notin> set (idleLoop (lastFinishLoop [5, 5, 3] 5) 0 [5, 5, 3])"
  by (simp add: logWorkersStat_def lastFinishLoop_def After_def Equal_def Sub_def Let_def
      maxDuration_def minDuration_def)

subsection \<open>The loops of the pipeline\<close>

lemma finishLoop_eq:
  "finishLoop ps k (st, tr) = (fold Finish ps st, tr @ map FinishCalled [k..<k + length ps])"
proof (induction ps arbitrary: k st tr)
  case Nil
  show ?case by simp
next
  case (Cons p ps)
  have "[k..<k + length (p # ps)] = k # [Suc k..<Suc k + length ps]"
    by (simp add: upt_conv_Cons del: upt_Suc)
  then show ?case
    by (simp add: Cons.IH del: upt_Suc)
qed

lemma processIssues_append:
  "processIssues (ps1 @ ps2) k iss w =
     (case processIssues ps1 k iss w of (mid, w1) \<Rightarrow> processIssues ps2 (k + length ps1) mid w1)"
proof (induction ps1 arbitrary: k iss w)
  case Nil
  show ?case by simp
next
  case (Cons p ps1)
  obtain st tr where w: "w = (st, tr)" by (cases w)
  show ?case
    unfolding w
    by (simp add: Cons.IH Let_def split: prod.splits option.splits)
qed

lemma processIssues_trace:
  "\<exists>ev. snd (snd (processIssues ps k iss (st, tr))) = tr @ ev
        \<and> filter isFinishCalled ev = []
        \<and> filter isProcessCalled ev = map ProcessCalled [k..<k + length ps]"
proof (induction ps arbitrary: k iss st tr)
  case Nil
  show ?case by simp
next
  case (Cons p ps)
  obtain newIssues e st' where pr: "Process p iss st = ((newIssues, e), st')"
    by (cases "Process p iss st") auto
  have u: "[k..<k + length (p # ps)] = k # [Suc k..<Suc k + length ps]"
    by (simp add: upt_conv_Cons del: upt_Suc)
  show ?case
  proof (cases e)
    case None
    from Cons.IH[of "Suc k" "if newIssues = None then Some [] else newIssues" st' "tr @ [ProcessCalled k]"]
    obtain ev where ev:
      "snd (snd (processIssues ps (Suc k) (if newIssues = None then Some [] else newIssues) (st', tr @ [ProcessCalled k])))
         = (tr @ [ProcessCalled k]) @ ev"
      "filter isFinishCalled ev = []"
      "filter isProcessCalled ev = map ProcessCalled [Suc k..<Suc k + length ps]"
      by blast
    show ?thesis
      using pr None ev unfolding u
      by (intro exI[of _ "ProcessCalled k # ev"]) (simp add: Let_def)
  next
    case (Some msg)
    let ?wn = "Warnf (''Can't process result by '' @ ProcName p @ '' processor: '' @ msg)"
    from Cons.IH[of "Suc k" "if iss = None then Some [] else iss" st' "tr @ [ProcessCalled k, ?wn]"]
    obtain ev where ev:
      "snd (snd (processIssues ps (Suc k) (if iss = None then Some [] else iss) (st', tr @ [ProcessCalled k, ?wn])))
         = (tr @ [ProcessCalled k, ?wn]) @ ev"
      "filter isFinishCalled ev = []"
      "filter isProcessCalled ev = map ProcessCalled [Suc k..<Suc k + length ps]"
      by blast
    show ?thesis
      using pr Some ev unfolding u
      by (intro exI[of _ "ProcessCalled k # ?wn # ev"]) (simp add: Let_def)
  qed
qed

lemma processIssues_not_nil:
  "ps \<noteq> [] \<or> iss \<noteq> None \<Longrightarrow> fst (processIssues ps k iss w) \<noteq> None"
proof (induction ps arbitrary: k iss w)
  case Nil
  then show ?case by simp
next
  case (Cons p ps)
  obtain st tr where w: "w = (st, tr)" by (cases w)
  obtain newIssues e st' where pr: "Process p iss st = ((newIssues, e), st')"
    by (cases "Process p iss st") auto
  show ?case
    unfolding w using pr Cons.IH
    by (cases e) (simp_all add: Let_def)
qed

lemma processLoop_trace:
  "\<exists>ev. snd (snd (processLoop ps inCh (st, tr))) = tr @ ev
        \<and> filter isFinishCalled ev = []
        \<and> filter isProcessCalled ev =
            concat (replicate (length (fst (processLoop ps inCh (st, tr)))) (map ProcessCalled [0..<length ps]))"
proof (induction inCh arbitrary: st tr)
  case Nil
  show ?case by simp
next
  case (Cons res inCh)
  show ?case
  proof (cases "err res")
    case (Some e)
    let ?wn = "Warnf (''Can't run linter '' @ LinterName (Linter (linter res)) @ '': '' @ e)"
    from Cons.IH[of st "tr @ [?wn]"] obtain ev where ev:
      "snd (snd (processLoop ps inCh (st, tr @ [?wn]))) = (tr @ [?wn]) @ ev"
      "filter isFinishCalled ev = []"
      "filter isProcessCalled ev =
         concat (replicate (length (fst (processLoop ps inCh (st, tr @ [?wn])))) (map ProcessCalled [0..<length ps]))"
      by blast
    show ?thesis
      using Some ev by (intro exI[of _ "?wn # ev"]) simp
  next
    case None
    show ?thesis
    proof (cases "len (issues res) \<noteq> 0")
      case False
      with None Cons.IH[of st tr] show ?thesis by simp
    next
      case True
      obtain iss st1 tr1 where pi: "processIssues ps 0 (issues res) (st, tr) = (iss, (st1, tr1))"
        by (cases "processIssues ps 0 (issues res) (st, tr)") auto
      from processIssues_trace[of ps 0 "issues res" st tr] pi obtain ev1 where ev1:
        "tr1 = tr @ ev1" "filter isFinishCalled ev1 = []"
        "filter isProcessCalled ev1 = map ProcessCalled [0..<length ps]"
        by auto
      obtain outCh w' where pl: "processLoop ps inCh (st1, tr1) = (outCh, w')"
        by (cases "processLoop ps inCh (st1, tr1)")
      from Cons.IH[of st1 tr1] pl obtain ev where ev:
        "snd w' = tr1 @ ev" "filter isFinishCalled ev = []"
        "filter isProcessCalled ev = concat (replicate (length outCh) (map ProcessCalled [0..<length ps]))"
        by auto
      show ?thesis
        using None True pi pl ev1 ev
        by (intro exI[of _ "ev1 @ ev"]) simp
    qed
  qed
qed

lemma processLoop_linters:
  "map linter (fst (processLoop ps inCh w)) =
     map linter (filter (\<lambda>res. err res = None \<and> len (issues res) \<noteq> 0) inCh)"
proof (induction inCh arbitrary: w)
  case Nil
  show ?case by simp
next
  case (Cons res inCh)
  obtain st tr where w: "w = (st, tr)" by (cases w)
  obtain iss w1 where pi: "processIssues ps 0 (issues res) (st, tr) = (iss, w1)"
    by (cases "processIssues ps 0 (issues res) (st, tr)")
  obtain outCh w2 where pl: "processLoop ps inCh w1 = (outCh, w2)"
    by (cases "processLoop ps inCh w1")
  from Cons.IH[of w1] pl
  have a: "map linter outCh = map linter (filter (\<lambda>res. err res = None \<and> len (issues res) \<noteq> 0) inCh)"
    by simp
  show ?case
    unfolding w using Cons.IH[of "(st, tr)"] Cons.IH[of "(st, tr @ [Warnf (''Can't run linter '' @ LinterName (Linter (linter res)) @ '': '' @ the (err res))])"] pi pl a
    by (cases "err res") simp_all
qed

lemma processLoop_forwarded:
  "res \<in> set (fst (processLoop ps inCh w)) \<Longrightarrow> err res = None \<and> issues res \<noteq> None"
proof (induction inCh arbitrary: w)
  case Nil
  then show ?case by simp
next
  case (Cons r0 inCh)
  obtain st tr where w: "w = (st, tr)" by (cases w)
  show ?case
  proof (cases "err r0")
    case (Some e)
    with Cons w show ?thesis by simp
  next
    case None
    show ?thesis
    proof (cases "len (issues r0) \<noteq> 0")
      case False
      with None Cons w show ?thesis by simp
    next
      case True
      then have nn: "issues r0 \<noteq> None" by (cases "issues r0") (simp_all add: len_def)
      obtain iss w1 where pi: "processIssues ps 0 (issues r0) (st, tr) = (iss, w1)"
        by (cases "processIssues ps 0 (issues r0) (st, tr)")
      have nn': "iss \<noteq> None"
        using processIssues_not_nil[of ps "issues r0" 0 "(st, tr)"] nn pi by simp
      obtain outCh w2 where pl: "processLoop ps inCh w1 = (outCh, w2)"
        by (cases "processLoop ps inCh w1")
      from Cons.prems w None True pi pl
      have "res = r0\<lparr>issues := iss\<rparr> \<or> res \<in> set (fst (processLoop ps inCh w1))"
        by auto
      then show ?thesis
      proof
        assume "res = r0\<lparr>issues := iss\<rparr>"
        with None nn' show ?thesis by simp
      next
        assume "res \<in> set (fst (processLoop ps inCh w1))"
        then show ?thesis by (rule Cons.IH)
      qed
    qed
  qed
qed

lemma collectIssues_concat: "collectIssues resCh = concat (map (\<lambda>res. elems (issues res)) resCh)"
proof (induction resCh)
  case Nil
  show ?case by simp
next
  case (Cons res resCh)
  have "len (issues res) = 0 \<Longrightarrow> elems (issues res) = []"
    by (cases "issues res") (simp_all add: len_def elems_def)
  with Cons show ?case by simp
qed

lemma drain_eq: "drain ch n = (n + length ch, [])"
  by (induction ch arbitrary: n) simp_all

subsection \<open>A failing processor\<close>

text \<open>
  Claim C4: let the processors \<open>ps1\<close> have run and left the findings \<open>mid\<close>. If the next
  processor \<open>p\<close> fails, the remaining processors \<open>ps2\<close> are applied to \<open>mid\<close>, the
  findings as they were before \<open>p\<close> ran (a nil slice, which only the caller's input to an
  empty \<open>ps1\<close> can be, is replaced by the empty slice: the same findings), and one
  warning is logged. If \<open>p\<close> returns nil and no error, the remaining processors get the
  empty slice. The output of a chain that has a processor is never nil.
\<close>

theorem processIssues_fails_open:
  assumes "processIssues ps1 k iss w = (mid, (st1, tr1))"
  shows "(\<forall>newIssues msg st2.
            Process p mid st1 = ((newIssues, Some msg), st2) \<longrightarrow>
              processIssues (ps1 @ p # ps2) k iss w =
                processIssues ps2 (Suc (k + length ps1)) (if mid = None then Some [] else mid)
                  (st2, tr1 @ [ProcessCalled (k + length ps1),
                               Warnf (''Can't process result by '' @ ProcName p @ '' processor: '' @ msg)])
              \<and> elems (if mid = None then Some [] else mid) = elems mid)
         \<and> (\<forall>st2.
            Process p mid st1 = ((None, None), st2) \<longrightarrow>
              processIssues (ps1 @ p # ps2) k iss w =
                processIssues ps2 (Suc (k + length ps1)) (Some [])
                  (st2, tr1 @ [ProcessCalled (k + length ps1)]))
         \<and> (ps1 \<noteq> [] \<or> iss \<noteq> None \<longrightarrow> mid \<noteq> None)
         \<and> fst (processIssues (ps1 @ p # ps2) k iss w) \<noteq> None"
proof -
  have a: "processIssues (ps1 @ p # ps2) k iss w = processIssues (p # ps2) (k + length ps1) mid (st1, tr1)"
    using assms by (simp add: processIssues_append)
  have b: "elems (if mid = None then Some [] else mid) = elems mid"
    by (simp add: elems_def)
  have c: "ps1 \<noteq> [] \<or> iss \<noteq> None \<longrightarrow> mid \<noteq> None"
    using processIssues_not_nil[of ps1 iss k w] assms by simp
  have d: "fst (processIssues (ps1 @ p # ps2) k iss w) \<noteq> None"
    by (rule processIssues_not_nil) simp
  show ?thesis
    unfolding a using b c d unfolding a by (simp add: Let_def)
qed

theorem processIssues_fails_open_witness:
  "processIssues [] 0 (Some [\<lparr>FromLinter = ''fast'', Text = ''x'', Pos_Filename = ''a.go'', Pos_Line = 1\<rparr>]) (0::nat, [])
     = (Some [\<lparr>FromLinter = ''fast'', Text = ''x'', Pos_Filename = ''a.go'', Pos_Line = 1\<rparr>], (0, []))
   \<and> processIssues
        [\<lparr>ProcName = ''bad'', Process = (\<lambda>iss st. ((None, Some ''oops''), st + 1)), Finish = (\<lambda>st. st)\<rparr>,
         \<lparr>ProcName = ''nil'', Process = (\<lambda>iss st. ((None, None), st + 1)), Finish = (\<lambda>st. st)\<rparr>]
        0 (Some [\<lparr>FromLinter = ''fast'', Text = ''x'', Pos_Filename = ''a.go'', Pos_Line = 1\<rparr>]) (0::nat, [])
     = processIssues
        [\<lparr>ProcName = ''nil'', Process = (\<lambda>iss st. ((None, None), st + 1)), Finish = (\<lambda>st. st)\<rparr>]
        1 (Some [\<lparr>FromLinter = ''fast'', Text = ''x'', Pos_Filename = ''a.go'', Pos_Line = 1\<rparr>])
        (1, [ProcessCalled 0, Warnf ''Can't process result by bad processor: oops''])
   \<and> processIssues
        [\<lparr>ProcName = ''nil'', Process = (\<lambda>iss st. ((None, None), st + 1)), Finish = (\<lambda>st. st)\<rparr>]
        0 (Some [\<lparr>FromLinter = ''fast'', Text = ''x'', Pos_Filename = ''a.go'', Pos_Line = 1\<rparr>]) (0::nat, [])
     = (Some [], (1, [ProcessCalled 0]))"
proof -
  let ?i = "Some [\<lparr>FromLinter = ''fast'', Text = ''x'', Pos_Filename = ''a.go'', Pos_Line = 1\<rparr>]"
  let ?bad = "\<lparr>ProcName = ''bad'', Process = (\<lambda>iss st. ((None :: Issue slice, Some ''oops''), st + 1)), Finish = (\<lambda>st :: nat. st)\<rparr>"
  let ?nil = "\<lparr>ProcName = ''nil'', Process = (\<lambda>iss st. ((None :: Issue slice, None :: error option), st + 1)), Finish = (\<lambda>st :: nat. st)\<rparr>"
  have h: "processIssues [] 0 ?i (0::nat, []) = (?i, (0, []))" by simp
  have pb: "Process ?bad ?i 0 = ((None, Some ''oops''), 1)" by simp
  have pn: "Process ?nil ?i 0 = ((None, None), 1)" by simp
  from processIssues_fails_open[OF h, of ?bad "[?nil]"] pb
  have a: "processIssues ([] @ ?bad # [?nil]) 0 ?i (0::nat, []) =
           processIssues [?nil] (Suc (0 + length ([] :: nat Processor list))) (if ?i = None then Some [] else ?i)
             (1, [] @ [ProcessCalled (0 + length ([] :: nat Processor list)),
                       Warnf (''Can't process result by '' @ ProcName ?bad @ '' processor: '' @ ''oops'')])"
    by blast
  from processIssues_fails_open[OF h, of ?nil "[]"] pn
  have b: "processIssues ([] @ ?nil # []) 0 ?i (0::nat, []) =
           processIssues [] (Suc (0 + length ([] :: nat Processor list))) (Some [])
             (1, [] @ [ProcessCalled (0 + length ([] :: nat Processor list))])"
    by blast
  from h a b show ?thesis by simp
qed

subsection \<open>The processors are finalized once\<close>

text \<open>
  Claim C5: the trace of \<open>processLintResults\<close> is the trace of the loop over the raw
  results followed by one call of \<open>Finish\<close> for each position of the chain, in the
  order of the chain, and the processors' state is folded through these calls in that
  order. The loop itself makes no call of \<open>Finish\<close>, and it calls \<open>Process\<close> in the order
  of the chain once for each record it forwards. So every processor is finalized exactly
  once, after the last record, whatever the number of records, also with none; and this
  is so in the trace of every run that \<open>Run\<close> completes.
\<close>

theorem finish_called_once_in_order:
  "snd (snd (processLintResults r inCh (st, tr))) =
     snd (snd (processLoop (Processors r) inCh (st, tr))) @ map FinishCalled [0..<length (Processors r)]
   \<and> fst (snd (processLintResults r inCh (st, tr))) =
       fold Finish (Processors r) (fst (snd (processLoop (Processors r) inCh (st, tr))))
   \<and> filter isFinishCalled (snd (snd (processLoop (Processors r) inCh (st, [])))) = []
   \<and> filter isProcessCalled (snd (snd (processLoop (Processors r) inCh (st, [])))) =
       concat (replicate (length (fst (processLoop (Processors r) inCh (st, []))))
                 (map ProcessCalled [0..<length (Processors r)]))
   \<and> filter isFinishCalled (snd (snd (processLintResults r inCh (st, [])))) =
       map FinishCalled [0..<length (Processors r)]
   \<and> snd (snd (processLintResults r [] (st, []))) = map FinishCalled [0..<length (Processors r)]
   \<and> (\<forall>out. Run r sch concurrency linters st = Inr out \<longrightarrow>
         filter isFinishCalled (runTrace out) = map FinishCalled [0..<length (Processors r)])"
proof -
  let ?ps = "Processors r"
  have fin: "filter isFinishCalled (map FinishCalled ks) = map FinishCalled ks" for ks
    by (induction ks) simp_all
  have plr: "snd (processLintResults r ch w) = finishLoop ?ps 0 (snd (processLoop ?ps ch w))" for ch w
    by (simp add: processLintResults_def split: prod.splits)
  have a: "snd (snd (processLintResults r ch (s, t))) =
           snd (snd (processLoop ?ps ch (s, t))) @ map FinishCalled [0..<length ?ps]" for ch s t
  proof -
    obtain s1 t1 where w: "snd (processLoop ?ps ch (s, t)) = (s1, t1)"
      by (cases "snd (processLoop ?ps ch (s, t))")
    show ?thesis
      unfolding plr w using finishLoop_eq[of ?ps 0 s1 t1] by simp
  qed
  have b: "fst (snd (processLintResults r inCh (st, tr))) =
           fold Finish ?ps (fst (snd (processLoop ?ps inCh (st, tr))))"
  proof -
    obtain s1 t1 where w: "snd (processLoop ?ps inCh (st, tr)) = (s1, t1)"
      by (cases "snd (processLoop ?ps inCh (st, tr))")
    show ?thesis
      unfolding plr w using finishLoop_eq[of ?ps 0 s1 t1] by simp
  qed
  have c: "filter isFinishCalled (snd (snd (processLoop ?ps ch (s, [])))) = []"
    and d: "filter isProcessCalled (snd (snd (processLoop ?ps ch (s, [])))) =
       concat (replicate (length (fst (processLoop ?ps ch (s, [])))) (map ProcessCalled [0..<length ?ps]))"
    for ch s
    using processLoop_trace[of ?ps ch s "[]"] by auto
  have e: "filter isFinishCalled (snd (snd (processLintResults r ch (s, [])))) =
           map FinishCalled [0..<length ?ps]" for ch s
    unfolding a by (simp add: c fin)
  have f: "snd (snd (processLintResults r [] (st, []))) = map FinishCalled [0..<length ?ps]"
    unfolding a by simp
  have g: "filter isFinishCalled (runTrace out) = map FinishCalled [0..<length ?ps]"
    if run: "Run r sch concurrency linters st = Inr out" for out
  proof (cases "runWorkers sch concurrency linters")
    case (Inl p)
    with run show ?thesis by (simp add: Run_def)
  next
    case (Inr v)
    obtain tasksCh raw wlog where v: "v = (tasksCh, raw, wlog)" by (cases v)
    obtain processed st' t where p: "processLintResults r raw (st, []) = (processed, (st', t))"
      by (cases "processLintResults r raw (st, [])") auto
    from e[of raw st] p have t: "filter isFinishCalled t = map FinishCalled [0..<length ?ps]"
      by simp
    obtain n ch where dr: "drain processed 0 = (n, ch)" by (cases "drain processed 0")
    show ?thesis
      using run Inr v p dr t
      by (cases "sch_ctxErr sch") (auto simp: Run_def)
  qed
  show ?thesis
    using a[of inCh st tr] b c[of inCh st] d[of inCh st] e[of inCh st] f g
    by (intro conjI allI impI)
qed

theorem finish_called_once_in_order_witness:
  "Run \<lparr>Processors = [\<lparr>ProcName = ''a'', Process = (\<lambda>iss st. ((iss, None), st)), Finish = (\<lambda>st. st + 1)\<rparr>,
                       \<lparr>ProcName = ''b'', Process = (\<lambda>iss st. ((iss, None), st)), Finish = (\<lambda>st. st + 10)\<rparr>]\<rparr>
       \<lparr>sch_completed = [], sch_finishTime = (\<lambda>i. 0), sch_ctxErr = False, sch_stack = ''''\<rparr> 1 [] (0::nat)
     = Inr \<lparr>retIssues = [], runTrace = [FinishCalled 0, FinishCalled 1], workersLog = [Infof_idle []], procState = 11\<rparr>
   \<and> filter isFinishCalled [FinishCalled 0, FinishCalled 1] = map FinishCalled [0..<2]"
proof -
  let ?r = "\<lparr>Processors = [\<lparr>ProcName = ''a'', Process = (\<lambda>iss st. ((iss :: Issue slice, None :: error option), st)), Finish = (\<lambda>st :: nat. st + 1)\<rparr>,
                       \<lparr>ProcName = ''b'', Process = (\<lambda>iss st. ((iss, None), st)), Finish = (\<lambda>st. st + 10)\<rparr>]\<rparr>"
  let ?sch = "\<lparr>sch_completed = [], sch_finishTime = (\<lambda>i. 0), sch_ctxErr = False, sch_stack = ''''\<rparr>"
  have ev: "Run ?r ?sch 1 [] 0
     = Inr \<lparr>retIssues = [], runTrace = [FinishCalled 0, FinishCalled 1], workersLog = [Infof_idle []], procState = 11\<rparr>"
    by (simp add: Run_def runWorkers_def getSortedLintersConfigs_def make_slice_def copy_slice_def
        sort_Slice_def startedTasks_def logWorkersStat_def lastFinishLoop_def After_def Equal_def
        processLintResults_def)
  from finish_called_once_in_order[of ?r "[]" 0 "[]" ?sch 1 "[]"] ev
  have "filter isFinishCalled (runTrace \<lparr>retIssues = [], runTrace = [FinishCalled 0, FinishCalled 1], workersLog = [Infof_idle []], procState = 11::nat\<rparr>)
        = map FinishCalled [0..<length (Processors ?r)]"
    by blast
  with ev show ?thesis by (simp add: numeral_2_eq_2)
qed

subsection \<open>Which records the pipeline forwards\<close>

text \<open>
  Claim C3, as amended. A raw result with an error is logged and dropped; a raw result
  with no error and no finding is dropped and nothing is logged; every other raw result
  is forwarded, once and in the order of arrival, with the findings the chain gives for
  it, whatever their number. So the forwarded records are those of the raw results that
  have no error and at least one raw finding; their findings are a slice that is not
  nil, and it may be empty. The collector adds nothing to the output for such a record.
\<close>

theorem processLintResults_forwards_after_chain:
  "map linter (fst (processLintResults r inCh w)) =
     map linter (filter (\<lambda>res. err res = None \<and> len (issues res) \<noteq> 0) inCh)
   \<and> (\<forall>res \<in> set (fst (processLintResults r inCh w)). err res = None \<and> issues res \<noteq> None)
   \<and> (\<forall>e. err res = Some e \<longrightarrow>
         processLoop ps (res # inCh) (st, tr) =
           processLoop ps inCh
             (st, tr @ [Warnf (''Can't run linter '' @ LinterName (Linter (linter res)) @ '': '' @ e)]))
   \<and> (err res = None \<and> len (issues res) = 0 \<longrightarrow>
         processLoop ps (res # inCh) (st, tr) = processLoop ps inCh (st, tr))
   \<and> (err res = None \<and> len (issues res) \<noteq> 0 \<longrightarrow>
         fst (processLoop ps (res # inCh) (st, tr)) =
           res\<lparr>issues := fst (processIssues ps 0 (issues res) (st, tr))\<rparr>
             # fst (processLoop ps inCh (snd (processIssues ps 0 (issues res) (st, tr)))))
   \<and> collectIssues outCh = concat (map (\<lambda>res. elems (issues res)) outCh)"
proof -
  have f: "fst (processLintResults r inCh w) = fst (processLoop (Processors r) inCh w)"
    by (simp add: processLintResults_def split: prod.splits)
  have a: "map linter (fst (processLintResults r inCh w)) =
     map linter (filter (\<lambda>res. err res = None \<and> len (issues res) \<noteq> 0) inCh)"
    unfolding f by (rule processLoop_linters)
  have b: "\<forall>res \<in> set (fst (processLintResults r inCh w)). err res = None \<and> issues res \<noteq> None"
    unfolding f using processLoop_forwarded by blast
  have c: "\<forall>e. err res = Some e \<longrightarrow>
         processLoop ps (res # inCh) (st, tr) =
           processLoop ps inCh
             (st, tr @ [Warnf (''Can't run linter '' @ LinterName (Linter (linter res)) @ '': '' @ e)])"
    by simp
  have d: "err res = None \<and> len (issues res) = 0 \<longrightarrow>
         processLoop ps (res # inCh) (st, tr) = processLoop ps inCh (st, tr)"
    by simp
  have e: "err res = None \<and> len (issues res) \<noteq> 0 \<longrightarrow>
         fst (processLoop ps (res # inCh) (st, tr)) =
           res\<lparr>issues := fst (processIssues ps 0 (issues res) (st, tr))\<rparr>
             # fst (processLoop ps inCh (snd (processIssues ps 0 (issues res) (st, tr))))"
    by (simp split: prod.splits)
  have g: "collectIssues outCh = concat (map (\<lambda>res. elems (issues res)) outCh)"
    by (rule collectIssues_concat)
  show ?thesis
    by (intro conjI) (rule a, rule b, rule c, rule d, rule e, rule g)
qed

theorem processLintResults_forwards_after_chain_witness:
  "err \<lparr>linter = \<lparr>Linter = \<lparr>LinterName = ''fast'', LinterRun = Returns None None\<rparr>, Speed = 1\<rparr>,
         err = None,
         issues = Some [\<lparr>FromLinter = ''fast'', Text = ''x'', Pos_Filename = ''a.go'', Pos_Line = 1\<rparr>]\<rparr> = None
   \<and> len (issues \<lparr>linter = \<lparr>Linter = \<lparr>LinterName = ''fast'', LinterRun = Returns None None\<rparr>, Speed = 1\<rparr>,
         err = None,
         issues = Some [\<lparr>FromLinter = ''fast'', Text = ''x'', Pos_Filename = ''a.go'', Pos_Line = 1\<rparr>]\<rparr>) \<noteq> 0
   \<and> fst (processLoop
          [\<lparr>ProcName = ''keep'', Process = (\<lambda>iss st. ((iss, None), st)), Finish = (\<lambda>st. st)\<rparr>]
          [\<lparr>linter = \<lparr>Linter = \<lparr>LinterName = ''fast'', LinterRun = Returns None None\<rparr>, Speed = 1\<rparr>,
            err = None,
            issues = Some [\<lparr>FromLinter = ''fast'', Text = ''x'', Pos_Filename = ''a.go'', Pos_Line = 1\<rparr>]\<rparr>]
          ((), []))
     = [\<lparr>linter = \<lparr>Linter = \<lparr>LinterName = ''fast'', LinterRun = Returns None None\<rparr>, Speed = 1\<rparr>,
         err = None,
         issues = Some [\<lparr>FromLinter = ''fast'', Text = ''x'', Pos_Filename = ''a.go'', Pos_Line = 1\<rparr>]\<rparr>]"
proof -
  let ?res = "\<lparr>linter = \<lparr>Linter = \<lparr>LinterName = ''fast'', LinterRun = Returns None None\<rparr>, Speed = 1\<rparr>,
         err = None,
         issues = Some [\<lparr>FromLinter = ''fast'', Text = ''x'', Pos_Filename = ''a.go'', Pos_Line = 1\<rparr>]\<rparr>"
  let ?ps = "[\<lparr>ProcName = ''keep'', Process = (\<lambda>iss st. ((iss :: Issue slice, None :: error option), st)), Finish = (\<lambda>st :: unit. st)\<rparr>]"
  have h: "err ?res = None \<and> len (issues ?res) \<noteq> 0" by (simp add: len_def)
  from processLintResults_forwards_after_chain[of "\<lparr>Processors = ?ps\<rparr>" "[]" "((), [])" ?res ?ps "()" "[]" "[]"] h
  have "fst (processLoop ?ps (?res # []) ((), [])) =
           ?res\<lparr>issues := fst (processIssues ?ps 0 (issues ?res) ((), []))\<rparr>
             # fst (processLoop ?ps [] (snd (processIssues ?ps 0 (issues ?res) ((), []))))"
    by blast
  with h show ?thesis by (simp add: Let_def)
qed

text \<open>
  Claim C3 as stated says that no processed record with an empty finding set is ever
  forwarded. A chain whose processor returns no findings, on a raw result with one
  finding, forwards the record with an empty finding set.
\<close>

theorem processLintResults_forwards_empty_counterexample:
  "fst (processLintResults
          \<lparr>Processors = [\<lparr>ProcName = ''drop'', Process = (\<lambda>iss st. ((None, None), st)), Finish = (\<lambda>st. st)\<rparr>]\<rparr>
          [\<lparr>linter = \<lparr>Linter = \<lparr>LinterName = ''fast'', LinterRun = Returns None None\<rparr>, Speed = 1\<rparr>,
            err = None,
            issues = Some [\<lparr>FromLinter = ''fast'', Text = ''x'', Pos_Filename = ''a.go'', Pos_Line = 1\<rparr>]\<rparr>]
          ((), []))
     = [\<lparr>linter = \<lparr>Linter = \<lparr>LinterName = ''fast'', LinterRun = Returns None None\<rparr>, Speed = 1\<rparr>,
         err = None, issues = Some []\<rparr>]
   \<and> len (issues \<lparr>linter = \<lparr>Linter = \<lparr>LinterName = ''fast'', LinterRun = Returns None None\<rparr>, Speed = 1\<rparr>,
         err = None, issues = Some [] :: Issue slice\<rparr>) = 0"
  by (simp add: processLintResults_def len_def Let_def)

subsection \<open>The deadline\<close>

lemma show_nat_1: "show_nat (Suc 0) = ''1''"
  by (simp add: show_nat.simps)

text \<open>
  What \<open>Run\<close> gives when the workers and the pipeline run to their end, in terms of the
  records the pipeline forwards.
\<close>

lemma Run_result:
  assumes "runWorkers sch concurrency linters = Inr (tasksCh, lintResultsCh, wlog)"
      and "processLintResults r lintResultsCh (st, []) = (processed, (st', tr))"
  shows "Run r sch concurrency linters st =
           Inr \<lparr>retIssues = (if sch_ctxErr sch then [] else concat (map (\<lambda>res. elems (issues res)) processed)),
                runTrace =
                  (if sch_ctxErr sch then
                     tr @ [Errorf (show_nat (length processed) @ ''/'' @ show_nat (length linters)
                             @ '' linters finished: deadline exceeded: try increase it by passing --deadline option'')]
                   else tr),
                workersLog = wlog,
                procState = st'\<rparr>"
  using assms
  by (simp add: Run_def drain_eq collectIssues_concat)

text \<open>
  Claim C2 says that, when the deadline has fired at the check, the processed records
  are counted, the message is logged at error level, and every finding of a processed
  record is still in the returned stream. The count and the message are as the claim
  says; the findings are lost. The counting loop receives every record from the channel
  and keeps none, and the collector then reads the same channel, which is exhausted.
  With one task that completes with one finding and a processor that keeps it, the
  pipeline forwards the record with its finding and the message counts it (1/1), yet
  the returned stream is empty.
\<close>

theorem Run_deadline_loses_findings:
  "Run \<lparr>Processors = [\<lparr>ProcName = ''keep'', Process = (\<lambda>iss st. ((iss, None), st)), Finish = (\<lambda>st. st)\<rparr>]\<rparr>
        \<lparr>sch_completed = [0], sch_finishTime = (\<lambda>i. 0), sch_ctxErr = True, sch_stack = ''''\<rparr> 1
        [\<lparr>Linter = \<lparr>LinterName = ''fast'',
                  LinterRun = Returns (Some [\<lparr>FromLinter = ''fast'', Text = ''x'', Pos_Filename = ''a.go'', Pos_Line = 1\<rparr>]) None\<rparr>,
          Speed = 1\<rparr>] ()
     = Inr \<lparr>retIssues = [],
            runTrace = [ProcessCalled 0, FinishCalled 0,
                        Errorf ''1/1 linters finished: deadline exceeded: try increase it by passing --deadline option''],
            workersLog = [Infof_idle []],
            procState = ()\<rparr>
   \<and> fst (processLintResults
          \<lparr>Processors = [\<lparr>ProcName = ''keep'', Process = (\<lambda>iss st. ((iss, None), st)), Finish = (\<lambda>st. st)\<rparr>]\<rparr>
          [\<lparr>linter = \<lparr>Linter = \<lparr>LinterName = ''fast'',
                  LinterRun = Returns (Some [\<lparr>FromLinter = ''fast'', Text = ''x'', Pos_Filename = ''a.go'', Pos_Line = 1\<rparr>]) None\<rparr>,
                       Speed = 1\<rparr>,
            err = None,
            issues = Some [\<lparr>FromLinter = ''fast'', Text = ''x'', Pos_Filename = ''a.go'', Pos_Line = 1\<rparr>]\<rparr>]
          ((), []))
     = [\<lparr>linter = \<lparr>Linter = \<lparr>LinterName = ''fast'',
                  LinterRun = Returns (Some [\<lparr>FromLinter = ''fast'', Text = ''x'', Pos_Filename = ''a.go'', Pos_Line = 1\<rparr>]) None\<rparr>,
                     Speed = 1\<rparr>,
          err = None,
          issues = Some [\<lparr>FromLinter = ''fast'', Text = ''x'', Pos_Filename = ''a.go'', Pos_Line = 1\<rparr>]\<rparr>]"
  by (simp add: Run_def runWorkers_def getSortedLintersConfigs_def make_slice_def copy_slice_def
      sort_Slice_def startedTasks_def logWorkersStat_def lastFinishLoop_def After_def Equal_def
      runLinterSafe_def runLinterSafe_deferred_def runLinterSafe_body_def stampLoop_fst
      processLintResults_def len_def Let_def show_nat_1)

end
